theory Spec2Isabelle
  imports Main "HOL-Library.Sublist" "HOL-Library.Char_ord" "HOL-Library.List_Lexorder"
    "HOL-Library.FSet"
begin

section \<open>Python strings\<close>

text \<open>
  A Python \<open>str\<close> is modelled as a \<open>string\<close>; a \<open>char\<close> is read as the code
  point \<open>of_char c\<close>, so the model covers the code points 0 to 255 (ASCII and Latin-1).
  The order on strings is the lexicographic order on code points, as Python compares
  \<open>str\<close> values.
\<close>

definition cp :: "char \<Rightarrow> nat" where
  "cp c = of_char c"

definition is_ascii_upper :: "char \<Rightarrow> bool" where
  "is_ascii_upper c = (65 \<le> cp c \<and> cp c \<le> 90)"

definition is_ascii_lower :: "char \<Rightarrow> bool" where
  "is_ascii_lower c = (97 \<le> cp c \<and> cp c \<le> 122)"

definition is_ascii_alpha :: "char \<Rightarrow> bool" where
  "is_ascii_alpha c = (is_ascii_upper c \<or> is_ascii_lower c)"

definition is_ascii_digit :: "char \<Rightarrow> bool" where
  "is_ascii_digit c = (48 \<le> cp c \<and> cp c \<le> 57)"

text \<open>
  \<open>str.lower()\<close> on one code point below 256: the ASCII capitals and the Latin-1
  capitals \<open>0xC0\<close> to \<open>0xDE\<close> (without the multiplication sign \<open>0xD7\<close>) move up by 32.
\<close>

definition lower_char :: "char \<Rightarrow> char" where
  "lower_char c =
     (if is_ascii_upper c \<or> (192 \<le> cp c \<and> cp c \<le> 222 \<and> cp c \<noteq> 215)
      then char_of (cp c + 32) else c)"

definition lower :: "string \<Rightarrow> string" where
  "lower s = map lower_char s"

text \<open>
  The characters \<open>str.strip()\<close> and \<open>str.split()\<close> treat as whitespace, below 256:
  tab to carriage return, the separators \<open>0x1C\<close> to \<open>0x1F\<close>, space, \<open>0x85\<close> and \<open>0xA0\<close>.
\<close>

definition is_space :: "char \<Rightarrow> bool" where
  "is_space c =
     ((9 \<le> cp c \<and> cp c \<le> 13) \<or> (28 \<le> cp c \<and> cp c \<le> 32) \<or> cp c = 133 \<or> cp c = 160)"

text \<open>\<open>s.lstrip(chars)\<close>, \<open>s.rstrip(chars)\<close> and \<open>s.strip(chars)\<close>, for a predicate on characters.\<close>

definition lstrip :: "(char \<Rightarrow> bool) \<Rightarrow> string \<Rightarrow> string" where
  "lstrip p s = dropWhile p s"

definition rstrip :: "(char \<Rightarrow> bool) \<Rightarrow> string \<Rightarrow> string" where
  "rstrip p s = rev (dropWhile p (rev s))"

definition strip :: "(char \<Rightarrow> bool) \<Rightarrow> string \<Rightarrow> string" where
  "strip p s = rstrip p (lstrip p s)"

text \<open>\<open>s.startswith(p)\<close> and \<open>s.endswith(p)\<close>.\<close>

definition startswith :: "string \<Rightarrow> string \<Rightarrow> bool" where
  "startswith s p = (take (length p) s = p)"

definition endswith :: "string \<Rightarrow> string \<Rightarrow> bool" where
  "endswith s p = (length p \<le> length s \<and> drop (length s - length p) s = p)"

text \<open>
  \<open>s.split(sep)\<close> for a separator of one character: the pieces between the
  separators, empty pieces included; the result is never the empty list.
\<close>

fun split_on :: "char \<Rightarrow> string \<Rightarrow> string list" where
  "split_on sep [] = [[]]"
| "split_on sep (c # cs) =
     (if c = sep then [] # split_on sep cs
      else (case split_on sep cs of
              [] \<Rightarrow> [[c]]
            | p # ps \<Rightarrow> (c # p) # ps))"

text \<open>
  \<open>s.split()\<close>: the maximal runs of characters that are not whitespace; no piece is
  empty. The accumulator \<open>w\<close> holds the current run, reversed.
\<close>

fun split_ws_acc :: "string \<Rightarrow> string \<Rightarrow> string list" where
  "split_ws_acc w [] = (if w = [] then [] else [rev w])"
| "split_ws_acc w (c # cs) =
     (if is_space c then (if w = [] then split_ws_acc [] cs else rev w # split_ws_acc [] cs)
      else split_ws_acc (c # w) cs)"

definition split_ws :: "string \<Rightarrow> string list" where
  "split_ws s = split_ws_acc [] s"

text \<open>\<open>sub in s\<close> on strings is the test for a contiguous substring.\<close>

definition contains :: "string \<Rightarrow> string \<Rightarrow> bool" where
  "contains s sub = sublist sub s"

section \<open>The validation regex\<close>

text \<open>
  \<open>domain_regex = re.compile(r"^(?!-)[A-Za-z0-9-]{1,63}(?<!-)\.[A-Za-z]{2,}$")\<close>,
  used with \<open>search\<close> and without flags. The definitions follow the pattern from left
  to right; a match is a choice of the two repetition counts \<open>n\<close> and \<open>m\<close>.
  The conjuncts of \<open>regex_match_at\<close> are, in order: the bounds of the two counts; the
  lookahead after the start anchor (the first character is not a hyphen); \<open>n\<close>
  characters of the class; the lookbehind (the last of them is not a hyphen); the
  literal dot; \<open>m\<close> ASCII letters; the end anchor.
\<close>

definition label_char :: "char \<Rightarrow> bool" where
  \<comment> \<open>the class \<open>[A-Za-z0-9-]\<close>\<close>
  "label_char c = (is_ascii_alpha c \<or> is_ascii_digit c \<or> c = CHR ''-'')"

definition at_end :: "string \<Rightarrow> bool" where
  \<comment> \<open>\<open>$\<close> without MULTILINE: at the end of the string, or before a newline that ends it\<close>
  "at_end rest = (rest = [] \<or> rest = [CHR 0x0A])"

definition regex_match_at :: "string \<Rightarrow> nat \<Rightarrow> nat \<Rightarrow> bool" where
  "regex_match_at s n m =
     (1 \<le> n \<and> n \<le> 63 \<and> 2 \<le> m \<and> n + 1 + m \<le> length s
      \<and> s ! 0 \<noteq> CHR ''-''
      \<and> list_all label_char (take n s)
      \<and> s ! (n - 1) \<noteq> CHR ''-''
      \<and> s ! n = CHR ''.''
      \<and> list_all is_ascii_alpha (take m (drop (n + 1) s))
      \<and> at_end (drop (n + 1 + m) s))"

definition regex_search :: "string \<Rightarrow> bool" where
  "regex_search s =
     list_ex (\<lambda>n. list_ex (\<lambda>m. regex_match_at s n m) [2 ..< Suc (length s)]) [1 ..< 64]"

definition is_valid_domain :: "string \<Rightarrow> bool" where
  "is_valid_domain domain = regex_search domain"

section \<open>The URL parser of the standard library\<close>

text \<open>
  \<open>normalize_domain\<close> reads only \<open>urlparse(url).netloc\<close>. The definitions below follow
  \<open>urllib.parse.urlsplit\<close> of CPython as far as the network location goes: leading
  control characters and spaces are dropped, tabs and line breaks are removed, a scheme
  is split off at the first colon, and after \<open>//\<close> the network location runs up to the
  first of \<open>/\<close>, \<open>?\<close> and \<open>#\<close>. A bracket without its partner raises \<open>ValueError\<close>.
  When both brackets occur, recent versions validate the bracketed host as an IP literal
  and raise \<open>ValueError\<close> when it is none; older versions do not. That check is the
  parameter \<open>bracket_ok\<close>, so every result below holds for either behaviour.
\<close>

datatype py_error = ValueError

definition c0_or_space :: "char \<Rightarrow> bool" where
  "c0_or_space c = (cp c \<le> 32)"

definition unsafe_url_byte :: "char \<Rightarrow> bool" where
  "unsafe_url_byte c = (c = CHR 0x09 \<or> c = CHR 0x0D \<or> c = CHR 0x0A)"

definition scheme_char :: "char \<Rightarrow> bool" where
  "scheme_char c = (is_ascii_alpha c \<or> is_ascii_digit c \<or> c = CHR ''+'' \<or> c = CHR ''-'' \<or> c = CHR ''.'')"

definition split_scheme :: "string \<Rightarrow> string" where
  \<comment> \<open>what is left of the URL once the scheme, if there is one, is taken off\<close>
  "split_scheme url =
     (let i = length (takeWhile (\<lambda>c. c \<noteq> CHR '':'') url)
      in if CHR '':'' \<in> set url \<and> 0 < i \<and> is_ascii_alpha (url ! 0)
            \<and> list_all scheme_char (take i url)
         then drop (i + 1) url else url)"

definition netloc_delim :: "char \<Rightarrow> bool" where
  "netloc_delim c = (c = CHR ''/'' \<or> c = CHR ''?'' \<or> c = CHR ''#'')"

definition urlparse_netloc :: "(string \<Rightarrow> bool) \<Rightarrow> string \<Rightarrow> py_error + string" where
  "urlparse_netloc bracket_ok url0 =
     (let url = split_scheme (filter (\<lambda>c. \<not> unsafe_url_byte c) (lstrip c0_or_space url0))
      in if take 2 url = ''//'' then
           (let netloc = takeWhile (\<lambda>c. \<not> netloc_delim c) (drop 2 url)
            in if (CHR ''['' \<in> set netloc \<and> CHR '']'' \<notin> set netloc)
                  \<or> (CHR '']'' \<in> set netloc \<and> CHR ''['' \<notin> set netloc)
               then Inl ValueError
               else if CHR ''['' \<in> set netloc \<and> CHR '']'' \<in> set netloc \<and> \<not> bracket_ok netloc
               then Inl ValueError
               else Inr netloc)
         else Inr [])"

section \<open>Normalization\<close>

text \<open>
  A raw line is any Python value; only strings are looked into. An absent
  \<open>source_name\<close> or keyword list is \<open>None\<close>.
\<close>

datatype pyval = Str string | NotStr

text \<open>
  The steps of \<open>normalize_domain\<close>, in the order of the source. \<open>phishtank_step\<close>
  returns \<open>None\<close> where the source returns the empty string at once.
\<close>

definition phishtank_step :: "(string \<Rightarrow> bool) \<Rightarrow> string option \<Rightarrow> string \<Rightarrow> string option" where
  "phishtank_step bracket_ok source_name domain =
     (if (case source_name of None \<Rightarrow> False | Some n \<Rightarrow> n \<noteq> [] \<and> contains n ''phishtank'')
         \<and> CHR '','' \<in> set domain
      then
        (let parts = split_on CHR '','' domain
         in if length parts > 1 then
              (let url = strip (\<lambda>c. c = CHR 0x22) (parts ! 1)
               in if startswith url ''http'' then
                    (case urlparse_netloc bracket_ok url of
                       Inl e \<Rightarrow> None
                     | Inr netloc \<Rightarrow> Some netloc)
                  else Some url)
            else Some domain)
      else Some domain)"

definition adguard_step :: "string \<Rightarrow> string" where
  "adguard_step domain =
     (if startswith domain ''||'' \<and> endswith domain ''^''
      then drop 2 (take (length domain - 1) domain)
      else if startswith domain ''||'' then drop 2 domain
      else domain)"

definition hosts_step :: "string \<Rightarrow> string" where
  "hosts_step domain =
     (if startswith domain ''0.0.0.0'' \<or> startswith domain ''127.0.0.1''
         \<or> startswith domain ''::1'' \<or> startswith domain ''localhost''
      then (let parts = split_ws domain in if length parts > 1 then parts ! 1 else [])
      else domain)"

definition markers_step :: "string \<Rightarrow> string" where
  "markers_step domain =
     (let domain1 = rstrip (\<lambda>c. c = CHR ''^'') (lstrip (\<lambda>c. c = CHR ''|'') domain)
      in lstrip (\<lambda>c. c = CHR ''.'') (lstrip (\<lambda>c. c = CHR ''*'' \<or> c = CHR ''.'') domain1))"

definition protocol_step :: "(string \<Rightarrow> bool) \<Rightarrow> string \<Rightarrow> string" where
  "protocol_step bracket_ok domain =
     (if startswith domain ''http://'' \<or> startswith domain ''https://''
         \<or> startswith domain ''ftp://''
      then (case urlparse_netloc bracket_ok
                   (if startswith domain ''http://'' \<or> startswith domain ''https://''
                    then domain else ''http://'' @ domain) of
              Inl e \<Rightarrow> domain
            | Inr netloc \<Rightarrow> netloc)
      else domain)"

definition port_step :: "string \<Rightarrow> string" where
  "port_step domain =
     (if CHR '':'' \<in> set domain \<and> \<not> count_list domain CHR '':'' > 1
      then split_on CHR '':'' domain ! 0 else domain)"

definition path_step :: "string \<Rightarrow> string" where
  "path_step domain =
     (let domain1 = (if CHR ''/'' \<in> set domain then split_on CHR ''/'' domain ! 0 else domain)
      in if CHR ''?'' \<in> set domain1 then split_on CHR ''?'' domain1 ! 0 else domain1)"

definition unwanted_char :: "char \<Rightarrow> bool" where
  "unwanted_char c =
     (c \<in> set (''.,;:!@#$%^&*()[]{}'' @ [CHR 0x22, CHR 0x27, CHR '' '', CHR 0x09, CHR 0x0A, CHR 0x0D]))"

definition cleanup :: "(string \<Rightarrow> bool) \<Rightarrow> string \<Rightarrow> string" where
  \<comment> \<open>the source from the AdGuard format to the final \<open>strip\<close>, on the string the CSV step leaves\<close>
  "cleanup bracket_ok domain =
     strip unwanted_char
       (path_step (port_step (protocol_step bracket_ok
          (markers_step (hosts_step (adguard_step domain))))))"

definition normalize_domain :: "(string \<Rightarrow> bool) \<Rightarrow> pyval \<Rightarrow> string option \<Rightarrow> string" where
  "normalize_domain bracket_ok raw source_name =
     (case raw of
        NotStr \<Rightarrow> []
      | Str domain0 \<Rightarrow>
          if domain0 = [] then []
          else
            (let domain = lower (strip is_space domain0)
             in if domain = [] \<or> startswith domain ''#'' \<or> startswith domain ''!''
                   \<or> startswith domain '';''
                then []
                else
                  (case phishtank_step bracket_ok source_name domain of
                     None \<Rightarrow> []
                   | Some domain1 \<Rightarrow> cleanup bracket_ok domain1)))"

definition has_priority_keywords :: "string \<Rightarrow> string list \<Rightarrow> bool" where
  "has_priority_keywords domain keywords = list_ex (\<lambda>keyword. contains domain keyword) keywords"

text \<open>
  The loop of \<open>process_domains\<close>: \<open>process_loop\<close> carries the two sets built so far
  through the raw lines.
\<close>

fun process_loop ::
  "(string \<Rightarrow> bool) \<Rightarrow> string list option \<Rightarrow> string option \<Rightarrow> pyval list
     \<Rightarrow> string fset \<times> string fset \<Rightarrow> string fset \<times> string fset" where
  "process_loop bracket_ok priority_keywords source_name [] acc = acc"
| "process_loop bracket_ok priority_keywords source_name (raw_domain # rest)
       (normalized_domains, priority_domains) =
     (let domain = normalize_domain bracket_ok raw_domain source_name
      in if domain \<noteq> [] \<and> is_valid_domain domain then
           process_loop bracket_ok priority_keywords source_name rest
             (finsert domain normalized_domains,
              if (case priority_keywords of None \<Rightarrow> False
                  | Some keywords \<Rightarrow> keywords \<noteq> [] \<and> has_priority_keywords domain keywords)
              then finsert domain priority_domains else priority_domains)
         else process_loop bracket_ok priority_keywords source_name rest
                (normalized_domains, priority_domains))"

definition process_domains ::
  "(string \<Rightarrow> bool) \<Rightarrow> pyval list \<Rightarrow> string list option \<Rightarrow> string option
     \<Rightarrow> string fset \<times> string fset" where
  "process_domains bracket_ok raw_domains priority_keywords source_name =
     process_loop bracket_ok priority_keywords source_name raw_domains ({||}, {||})"

section \<open>Merging\<close>

record merge_stats =
  existing_count :: nat
  new_count :: nat
  newly_added_count :: nat
  total_count :: nat
  priority_count :: nat

definition merge_domains ::
  "string fset \<Rightarrow> string fset \<Rightarrow> string fset option \<Rightarrow> string list \<times> merge_stats" where
  "merge_domains existing_domains new_domains priority_domains =
     (let all_domains = existing_domains |\<union>| new_domains;
          newly_added = new_domains |-| existing_domains;
          final_domains_list = sorted_list_of_fset all_domains
      in (final_domains_list,
          \<lparr> existing_count = fcard existing_domains,
            new_count = fcard new_domains,
            newly_added_count = fcard newly_added,
            total_count = fcard all_domains,
            priority_count = 0 \<rparr>))"

section \<open>The canonical domain grammar of the specification\<close>

text \<open>
  This definition follows the words of the specification, not the source: a
  NormalizedDomain is a lowercase ASCII string of dot-separated labels, each label 1 to
  63 alphanumeric or hyphen characters, not starting or ending with a hyphen, with at
  least one dot and a final label of at least 2 alphabetic characters.
\<close>

definition canonical_label :: "string \<Rightarrow> bool" where
  "canonical_label l =
     (1 \<le> length l \<and> length l \<le> 63 \<and> list_all label_char l
      \<and> hd l \<noteq> CHR ''-'' \<and> last l \<noteq> CHR ''-'')"

definition canonical_domain :: "string \<Rightarrow> bool" where
  "canonical_domain d =
     (let labels = split_on CHR ''.'' d
      in lower d = d \<and> 2 \<le> length labels \<and> list_all canonical_label labels
         \<and> 2 \<le> length (last labels) \<and> list_all is_ascii_alpha (last labels))"

section \<open>Lowercasing and the characters of a result\<close>

text \<open>
  After \<open>lower()\<close>, each step of \<open>normalize_domain\<close> only selects characters of the
  string it is given; the protocol step may add those of \<open>http://\<close>.
\<close>

lemma cp_char_of: "n < 256 \<Longrightarrow> cp (char_of n) = n"
  by (simp add: cp_def)

lemma cp_less_256: "cp c < 256"
  by (simp add: cp_def)

lemma lower_char_idem: "lower_char (lower_char c) = lower_char c"
proof -
  have "cp c < 256" by (rule cp_less_256)
  then show ?thesis
    by (auto simp add: lower_char_def is_ascii_upper_def cp_char_of)
qed

lemma lower_fixed_iff: "lower s = s \<longleftrightarrow> (\<forall>c\<in>set s. lower_char c = c)"
  by (induction s) (auto simp add: lower_def)

lemma lower_idem: "lower (lower s) = lower s"
  by (simp add: lower_def lower_char_idem)

lemma set_lstrip: "set (lstrip p s) \<subseteq> set s"
  by (auto simp add: lstrip_def dest: set_dropWhileD)

lemma set_rstrip: "set (rstrip p s) \<subseteq> set s"
  by (auto simp add: rstrip_def dest: set_dropWhileD)

lemma set_strip: "set (strip p s) \<subseteq> set s"
  using set_rstrip set_lstrip by (fastforce simp add: strip_def)

lemma split_on_not_Nil: "split_on sep s \<noteq> []"
  by (induction s) (auto split: list.splits)

lemma set_split_on_all: "\<forall>p\<in>set (split_on sep s). set p \<subseteq> set s"
proof (induction s)
  case Nil
  show ?case by simp
next
  case (Cons c cs)
  show ?case
  proof (cases "split_on sep cs")
    case Nil
    then show ?thesis by (simp add: split_on_not_Nil)
  next
    case (Cons q qs)
    with Cons.IH show ?thesis by auto
  qed
qed

lemma set_split_on: "p \<in> set (split_on sep s) \<Longrightarrow> set p \<subseteq> set s"
  using set_split_on_all by blast

lemma set_split_ws_acc: "p \<in> set (split_ws_acc w s) \<Longrightarrow> set p \<subseteq> set w \<union> set s"
  by (induction w s arbitrary: p rule: split_ws_acc.induct) (auto split: if_splits)

lemma set_split_ws: "p \<in> set (split_ws s) \<Longrightarrow> set p \<subseteq> set s"
  using set_split_ws_acc [of p "[]" s] by (simp add: split_ws_def)

lemma set_split_scheme: "set (split_scheme url) \<subseteq> set url"
  by (auto simp add: split_scheme_def Let_def dest: in_set_dropD)

lemma set_urlparse_netloc:
  assumes "urlparse_netloc bok url = Inr netloc"
  shows "set netloc \<subseteq> set url"
proof -
  let ?u = "split_scheme (filter (\<lambda>c. \<not> unsafe_url_byte c) (lstrip c0_or_space url))"
  have u: "set ?u \<subseteq> set url"
    using set_split_scheme [of "filter (\<lambda>c. \<not> unsafe_url_byte c) (lstrip c0_or_space url)"]
      set_lstrip [of c0_or_space url] by auto
  have "netloc = [] \<or> netloc = takeWhile (\<lambda>c. \<not> netloc_delim c) (drop 2 ?u)"
    using assms by (auto simp add: urlparse_netloc_def Let_def split: if_splits)
  then have "set netloc \<subseteq> set ?u"
    by (auto dest: set_takeWhileD in_set_dropD)
  with u show ?thesis by blast
qed

lemma set_split_on_0: "set (split_on sep s ! 0) \<subseteq> set s"
  using set_split_on [of "split_on sep s ! 0" sep s] split_on_not_Nil [of sep s]
  by (cases "split_on sep s") auto

lemma set_phishtank_step:
  assumes "phishtank_step bok src d = Some d'"
  shows "set d' \<subseteq> set d"
proof (cases "d' = d")
  case True
  then show ?thesis by simp
next
  case False
  let ?parts = "split_on CHR '','' d"
  let ?url = "strip (\<lambda>c. c = CHR 0x22) (?parts ! 1)"
  from False assms have len: "1 < length ?parts"
    and d': "d' = ?url \<or> urlparse_netloc bok ?url = Inr d'"
    by (auto simp add: phishtank_step_def Let_def split: if_splits sum.splits)
  from len have "?parts ! 1 \<in> set ?parts" by simp
  then have "set (?parts ! 1) \<subseteq> set d" by (rule set_split_on)
  then have url: "set ?url \<subseteq> set d"
    using set_strip [of "\<lambda>c. c = CHR 0x22" "?parts ! 1"] by blast
  from d' show ?thesis
  proof
    assume "d' = ?url"
    with url show ?thesis by simp
  next
    assume "urlparse_netloc bok ?url = Inr d'"
    then have "set d' \<subseteq> set ?url" by (rule set_urlparse_netloc)
    with url show ?thesis by blast
  qed
qed

lemma set_adguard_step: "set (adguard_step d) \<subseteq> set d"
  by (auto simp add: adguard_step_def dest: in_set_dropD in_set_takeD)

lemma set_hosts_step: "set (hosts_step d) \<subseteq> set d"
proof (cases "1 < length (split_ws d)")
  case True
  then have "split_ws d ! 1 \<in> set (split_ws d)" by simp
  then have "set (split_ws d ! 1) \<subseteq> set d" by (rule set_split_ws)
  with True show ?thesis by (auto simp add: hosts_step_def Let_def)
next
  case False
  then show ?thesis by (simp add: hosts_step_def Let_def)
qed

lemma set_markers_step: "set (markers_step d) \<subseteq> set d"
proof -
  have "set (markers_step d) \<subseteq> set (rstrip (\<lambda>c. c = CHR ''^'') (lstrip (\<lambda>c. c = CHR ''|'') d))"
    unfolding markers_step_def Let_def
    using set_lstrip by (meson subset_trans)
  also have "\<dots> \<subseteq> set d"
    using set_rstrip set_lstrip by (meson subset_trans)
  finally show ?thesis .
qed

lemma set_protocol_step: "set (protocol_step bok d) \<subseteq> set d \<union> set ''http://''"
proof (cases "protocol_step bok d = d")
  case True
  then show ?thesis by auto
next
  case False
  let ?u = "if startswith d ''http://'' \<or> startswith d ''https://'' then d else ''http://'' @ d"
  from False have "urlparse_netloc bok ?u = Inr (protocol_step bok d)"
    by (auto simp add: protocol_step_def split: if_splits sum.splits)
  then have "set (protocol_step bok d) \<subseteq> set ?u" by (rule set_urlparse_netloc)
  also have "set ?u \<subseteq> set d \<union> set ''http://''" by auto
  finally show ?thesis .
qed

lemma set_port_step: "set (port_step d) \<subseteq> set d"
  using set_split_on_0 by (simp add: port_step_def)

lemma set_path_step: "set (path_step d) \<subseteq> set d"
proof -
  let ?d1 = "if CHR ''/'' \<in> set d then split_on CHR ''/'' d ! 0 else d"
  have 1: "set ?d1 \<subseteq> set d" using set_split_on_0 by simp
  have "set (path_step d) \<subseteq> set ?d1"
    unfolding path_step_def Let_def using set_split_on_0 by simp
  with 1 show ?thesis by blast
qed

lemma set_cleanup: "set (cleanup bok d) \<subseteq> set d \<union> set ''http://''"
proof -
  have "set (cleanup bok d) \<subseteq> set (protocol_step bok (markers_step (hosts_step (adguard_step d))))"
    unfolding cleanup_def
    using set_strip set_path_step set_port_step by (meson subset_trans)
  also have "\<dots> \<subseteq> set (markers_step (hosts_step (adguard_step d))) \<union> set ''http://''"
    by (rule set_protocol_step)
  also have "\<dots> \<subseteq> set d \<union> set ''http://''"
    using set_markers_step [of "hosts_step (adguard_step d)"] set_hosts_step [of "adguard_step d"]
      set_adguard_step [of d] by blast
  finally show ?thesis .
qed

lemma lower_char_http: "c \<in> set ''http://'' \<Longrightarrow> lower_char c = c"
  by (auto simp add: lower_char_def is_ascii_upper_def cp_def)

lemma lower_normalize_domain:
  "lower (normalize_domain bok raw src) = normalize_domain bok raw src"
proof (cases "normalize_domain bok raw src = []")
  case True
  then show ?thesis by (simp add: lower_def)
next
  case False
  then obtain domain0 d1 where raw: "raw = Str domain0"
    and ph: "phishtank_step bok src (lower (strip is_space domain0)) = Some d1"
    and res: "normalize_domain bok raw src = cleanup bok d1"
    by (auto simp add: normalize_domain_def Let_def split: pyval.splits if_splits option.splits)
  have "set (cleanup bok d1) \<subseteq> set d1 \<union> set ''http://''" by (rule set_cleanup)
  moreover have "set d1 \<subseteq> set (lower (strip is_space domain0))"
    using ph by (rule set_phishtank_step)
  moreover have "\<forall>c\<in>set (lower (strip is_space domain0)). lower_char c = c"
    using lower_idem [of "strip is_space domain0"] by (simp add: lower_fixed_iff)
  ultimately have "\<forall>c\<in>set (cleanup bok d1). lower_char c = c"
    using lower_char_http by blast
  then show ?thesis by (simp add: res lower_fixed_iff)
qed

text \<open>Invariants of the loop of \<open>process_domains\<close>.\<close>

lemma process_loop_priority_subset:
  "snd acc |\<subseteq>| fst acc \<Longrightarrow>
   snd (process_loop bok kws src raws acc) |\<subseteq>| fst (process_loop bok kws src raws acc)"
proof (induction raws arbitrary: acc)
  case Nil
  then show ?case by simp
next
  case (Cons raw raws)
  obtain n p where acc: "acc = (n, p)" by (cases acc)
  with Cons.prems have "p |\<subseteq>| n" by simp
  then show ?case
    unfolding acc by (auto simp add: Let_def intro!: Cons.IH)
qed

lemma process_loop_accepted:
  assumes "d |\<in>| fst (process_loop bok kws src raws acc)"
  shows "d |\<in>| fst acc \<or> (\<exists>raw\<in>set raws. d = normalize_domain bok raw src \<and> d \<noteq> [] \<and> is_valid_domain d)"
  using assms
proof (induction raws arbitrary: acc)
  case Nil
  then show ?case by simp
next
  case (Cons raw raws)
  obtain n p where acc: "acc = (n, p)" by (cases acc)
  show ?case
  proof (cases "normalize_domain bok raw src \<noteq> [] \<and> is_valid_domain (normalize_domain bok raw src)")
    case True
    with Cons.prems acc Cons.IH [of "(finsert (normalize_domain bok raw src) n,
        if (case kws of None \<Rightarrow> False | Some keywords \<Rightarrow> keywords \<noteq> [] \<and> has_priority_keywords (normalize_domain bok raw src) keywords)
        then finsert (normalize_domain bok raw src) p else p)"]
    show ?thesis by (auto simp add: Let_def)
  next
    case False
    with Cons.prems acc Cons.IH [of "(n, p)"]
    show ?thesis by (auto simp add: Let_def)
  qed
qed

section \<open>Properties of the validation regex\<close>

lemma regex_search_iff: "regex_search s \<longleftrightarrow> (\<exists>n m. regex_match_at s n m)"
proof
  assume "regex_search s"
  then show "\<exists>n m. regex_match_at s n m"
    by (auto simp add: regex_search_def list_ex_iff)
next
  assume "\<exists>n m. regex_match_at s n m"
  then obtain n m where nm: "regex_match_at s n m" by blast
  then have "n \<in> set [1 ..< 64]" and "m \<in> set [2 ..< Suc (length s)]"
    by (auto simp add: regex_match_at_def)
  with nm show "regex_search s"
    unfolding regex_search_def list_ex_iff by blast
qed

lemma label_char_not_dot: "label_char c \<Longrightarrow> c \<noteq> CHR ''.''"
  by (auto simp add: label_char_def is_ascii_alpha_def is_ascii_upper_def is_ascii_lower_def
      is_ascii_digit_def cp_def)

lemma alpha_not_dot: "is_ascii_alpha c \<Longrightarrow> c \<noteq> CHR ''.''"
  by (auto simp add: is_ascii_alpha_def is_ascii_upper_def is_ascii_lower_def cp_def)

lemma regex_match_at_decomp:
  assumes "regex_match_at s n m"
  shows "take n s @ CHR ''.'' # take m (drop (n + 1) s) @ drop (n + 1 + m) s = s"
proof -
  from assms have n: "n < length s" and dot: "s ! n = CHR ''.''"
    by (auto simp add: regex_match_at_def)
  have "drop (n + 1 + m) s = drop m (drop (n + 1) s)"
    by (simp add: ac_simps)
  then have tail: "take m (drop (n + 1) s) @ drop (n + 1 + m) s = drop (Suc n) s"
    by (simp only: append_take_drop_id Suc_eq_plus1)
  have "take n s @ CHR ''.'' # take m (drop (n + 1) s) @ drop (n + 1 + m) s
          = take n s @ s ! n # drop (Suc n) s"
    by (simp only: tail dot)
  also have "\<dots> = s"
    using id_take_nth_drop [OF n] by (rule sym)
  finally show ?thesis .
qed

lemma regex_match_at_label:
  assumes "regex_match_at s n m"
  shows "takeWhile (\<lambda>c. c \<noteq> CHR ''.'') s = take n s"
proof -
  let ?rest = "take m (drop (n + 1) s) @ drop (n + 1 + m) s"
  from assms have "\<forall>c\<in>set (take n s). c \<noteq> CHR ''.''"
    by (auto simp add: regex_match_at_def list_all_iff dest: label_char_not_dot)
  then have "takeWhile (\<lambda>c. c \<noteq> CHR ''.'') (take n s @ CHR ''.'' # ?rest) = take n s"
    by (simp add: takeWhile_append2)
  then show ?thesis by (simp only: regex_match_at_decomp [OF assms])
qed

lemma valid_label_length:
  assumes "is_valid_domain s"
  shows "length (takeWhile (\<lambda>c. c \<noteq> CHR ''.'') s) \<le> 63"
proof -
  from assms obtain n m where nm: "regex_match_at s n m"
    by (auto simp add: is_valid_domain_def regex_search_iff)
  then have "n \<le> 63" by (simp add: regex_match_at_def)
  with regex_match_at_label [OF nm] show ?thesis by simp
qed

lemma valid_domain_one_dot:
  assumes "is_valid_domain s"
  shows "count_list s CHR ''.'' = 1"
proof -
  from assms obtain n m where nm: "regex_match_at s n m"
    by (auto simp add: is_valid_domain_def regex_search_iff)
  let ?l = "take n s" and ?t = "take m (drop (n + 1) s)" and ?r = "drop (n + 1 + m) s"
  from nm have "CHR ''.'' \<notin> set ?l"
    by (auto simp add: regex_match_at_def list_all_iff dest: label_char_not_dot)
  moreover from nm have "CHR ''.'' \<notin> set ?t"
    by (auto simp add: regex_match_at_def list_all_iff dest: alpha_not_dot)
  moreover from nm have "CHR ''.'' \<notin> set ?r"
    by (auto simp add: regex_match_at_def at_end_def)
  ultimately have "count_list (?l @ CHR ''.'' # ?t @ ?r) CHR ''.'' = 1"
    by (simp add: count_list_0_iff)
  then show ?thesis by (simp only: regex_match_at_decomp [OF nm])
qed

section \<open>Properties of normalization and processing\<close>

lemma lower_fixed_not_upper: "lower_char c = c \<Longrightarrow> \<not> is_ascii_upper c"
proof
  assume fixed: "lower_char c = c" and up: "is_ascii_upper c"
  from up have "cp (lower_char c) = cp c + 32"
    by (simp add: lower_char_def is_ascii_upper_def cp_char_of)
  with fixed show False by simp
qed

lemma lower_fixed_no_upper: "lower s = s \<Longrightarrow> list_all (\<lambda>c. \<not> is_ascii_upper c) s"
  by (simp add: lower_fixed_iff list_all_iff lower_fixed_not_upper)

text \<open>
  C9. The priority set is contained in the normalized set: whatever the raw lines, the
  keywords and the source name are, every domain that \<open>process_domains\<close> tags as
  priority is in the set of accepted domains it returns.
\<close>

theorem priority_subset_normalized:
  "snd (process_domains bok raw_domains priority_keywords source_name)
     |\<subseteq>| fst (process_domains bok raw_domains priority_keywords source_name)"
  unfolding process_domains_def by (rule process_loop_priority_subset) simp

theorem priority_subset_normalized_witness:
  "snd (process_domains (\<lambda>_. True) [Str ''VALID-Domain.IO'', Str ''http://Ads.com/x''] (Some [''ads'']) None) = {|''ads.com''|}
  \<and> {|''ads.com''|} |\<subseteq>| fst (process_domains (\<lambda>_. True) [Str ''VALID-Domain.IO'', Str ''http://Ads.com/x''] (Some [''ads'']) None)"
proof -
  have h: "snd (process_domains (\<lambda>_. True) [Str ''VALID-Domain.IO'', Str ''http://Ads.com/x''] (Some [''ads'']) None) = {|''ads.com''|}"
    by code_simp
  from priority_subset_normalized [of "\<lambda>_. True" "[Str ''VALID-Domain.IO'', Str ''http://Ads.com/x'']" "Some [''ads'']" None] h
  show ?thesis by simp
qed

text \<open>
  C10. Every accepted domain is canonical in form: every element of the normalized set
  that \<open>process_domains\<close> returns is a non-empty string, matches the validation regex
  and has no uppercase letter (it is its own lowercasing).
\<close>

theorem accepted_domains_canonical:
  assumes "d |\<in>| fst (process_domains bok raw_domains priority_keywords source_name)"
  shows "d \<noteq> [] \<and> is_valid_domain d \<and> lower d = d \<and> list_all (\<lambda>c. \<not> is_ascii_upper c) d"
proof -
  from assms obtain raw where "d = normalize_domain bok raw source_name"
    and ok: "d \<noteq> []" "is_valid_domain d"
    using process_loop_accepted [of d bok priority_keywords source_name raw_domains "({||}, {||})"]
    by (auto simp add: process_domains_def)
  then have "lower d = d" by (simp add: lower_normalize_domain)
  with ok show ?thesis by (simp add: lower_fixed_no_upper)
qed

theorem accepted_domains_canonical_witness:
  "''valid-domain.io'' |\<in>| fst (process_domains (\<lambda>_. True) [Str ''VALID-Domain.IO''] None None)
   \<and> ''valid-domain.io'' \<noteq> [] \<and> is_valid_domain ''valid-domain.io''
   \<and> lower ''valid-domain.io'' = ''valid-domain.io''
   \<and> list_all (\<lambda>c. \<not> is_ascii_upper c) ''valid-domain.io''"
proof -
  have h: "''valid-domain.io'' |\<in>| fst (process_domains (\<lambda>_. True) [Str ''VALID-Domain.IO''] None None)"
    by code_simp
  from accepted_domains_canonical [OF h] h show ?thesis by simp
qed

text \<open>Evaluating \<open>normalize_domain\<close> on a line without a comma, for any source name.\<close>

lemma startswith_single: "startswith s [c] \<longleftrightarrow> s \<noteq> [] \<and> hd s = c"
  by (cases s) (auto simp add: startswith_def)

lemma phishtank_step_no_comma: "CHR '','' \<notin> set d \<Longrightarrow> phishtank_step bok src d = Some d"
  by (simp add: phishtank_step_def)

lemma normalize_domain_no_comma:
  assumes "domain0 \<noteq> []" and "lower (strip is_space domain0) = d" and "d \<noteq> []"
    and "hd d \<noteq> CHR ''#''" and "hd d \<noteq> CHR ''!''" and "hd d \<noteq> CHR '';''"
    and "CHR '','' \<notin> set d"
  shows "normalize_domain bok (Str domain0) src = cleanup bok d"
  using assms by (simp add: normalize_domain_def startswith_single phishtank_step_no_comma)

lemma process_domains_single_rejected:
  assumes "normalize_domain bok raw src = d" and "\<not> is_valid_domain d"
  shows "process_domains bok [raw] kws src = ({||}, {||})"
  using assms by (simp add: process_domains_def)

text \<open>
  C1. Multi-label domains and the validation step. The specification has every name of
  three or more well-formed labels pass \<open>is_valid_domain\<close>, and the URL
  \<open>https://sub.Bad-Site.COM:8080/path?x=1\<close> accepted as \<open>sub.bad-site.com\<close>.
  On the code, the cleanup does produce \<open>sub.bad-site.com\<close>, but the regex has a single
  label before the final one, so \<open>is_valid_domain\<close> is false on it and on
  \<open>ads.example.com\<close>, and \<open>process_domains\<close> drops the line
  (\<open>valid_domain_one_dot\<close>: an accepted string has exactly one dot).
\<close>

theorem multi_label_domain_rejected:
  "normalize_domain bok (Str ''https://sub.Bad-Site.COM:8080/path?x=1'') src = ''sub.bad-site.com''
   \<and> \<not> is_valid_domain ''sub.bad-site.com''
   \<and> \<not> is_valid_domain ''ads.example.com''
   \<and> process_domains bok [Str ''https://sub.Bad-Site.COM:8080/path?x=1''] kws src = ({||}, {||})"
proof -
  have low: "lower (strip is_space ''https://sub.Bad-Site.COM:8080/path?x=1'')
               = ''https://sub.bad-site.com:8080/path?x=1''"
    by code_simp
  have clean: "cleanup bok ''https://sub.bad-site.com:8080/path?x=1'' = ''sub.bad-site.com''"
    by code_simp
  have norm: "normalize_domain bok (Str ''https://sub.Bad-Site.COM:8080/path?x=1'') src
                = ''sub.bad-site.com''"
    using normalize_domain_no_comma [OF _ low, of bok src] clean by simp
  have inv1: "\<not> is_valid_domain ''sub.bad-site.com''"
    using valid_domain_one_dot [of "''sub.bad-site.com''"] by auto
  have inv2: "\<not> is_valid_domain ''ads.example.com''"
    using valid_domain_one_dot [of "''ads.example.com''"] by auto
  from norm inv1 inv2 process_domains_single_rejected [OF norm inv1, of kws]
  show ?thesis by simp
qed

text \<open>
  C2. Protocol stripping and ftp URLs. The specification has \<open>ftp://example.com/files\<close>
  normalized to \<open>example.com\<close> and accepted. On the code, the line is parsed as
  \<open>http://ftp://example.com/files\<close>, whose network location is \<open>ftp:\<close>; the result
  is \<open>ftp\<close>, which the regex rejects, and \<open>process_domains\<close> drops the line. The same
  line with the scheme \<open>http\<close> gives \<open>example.com\<close>, which is accepted.
\<close>

theorem ftp_url_rejected:
  "normalize_domain bok (Str ''ftp://example.com/files'') src = ''ftp''
   \<and> \<not> is_valid_domain ''ftp''
   \<and> process_domains bok [Str ''ftp://example.com/files''] kws src = ({||}, {||})
   \<and> normalize_domain bok (Str ''http://example.com/files'') src = ''example.com''
   \<and> is_valid_domain ''example.com''"
proof -
  have low: "lower (strip is_space ''ftp://example.com/files'') = ''ftp://example.com/files''"
    by code_simp
  have clean: "cleanup bok ''ftp://example.com/files'' = ''ftp''"
    by code_simp
  have norm: "normalize_domain bok (Str ''ftp://example.com/files'') src = ''ftp''"
    using normalize_domain_no_comma [OF _ low, of bok src] clean by simp
  have inv: "\<not> is_valid_domain ''ftp''"
    using valid_domain_one_dot [of "''ftp''"] by auto
  have low': "lower (strip is_space ''http://example.com/files'') = ''http://example.com/files''"
    by code_simp
  have clean': "cleanup bok ''http://example.com/files'' = ''example.com''"
    by code_simp
  have norm': "normalize_domain bok (Str ''http://example.com/files'') src = ''example.com''"
    using normalize_domain_no_comma [OF _ low', of bok src] clean' by simp
  have ok: "is_valid_domain ''example.com''"
    by code_simp
  from norm inv norm' ok process_domains_single_rejected [OF norm inv, of kws]
  show ?thesis by simp
qed

lemma normalize_domain_empty: "normalize_domain bok (Str []) src = []"
  by (simp add: normalize_domain_def)

lemma normalize_domain_comment:
  assumes "lower (strip is_space domain0) = d" and "startswith d ''#''"
  shows "normalize_domain bok (Str domain0) src = []"
  using assms by (simp add: normalize_domain_def)

lemma process_loop_rejected:
  assumes "normalize_domain bok raw src = d" and "d = [] \<or> \<not> is_valid_domain d"
  shows "process_loop bok kws src (raw # rest) acc = process_loop bok kws src rest acc"
  using assms by (cases acc) auto

text \<open>
  C8. Rejection of malformed input: the lines \<open># comment\<close>, the empty string,
  \<open>not a domain\<close> and \<open>toolonglabel\<close> followed by 70 times \<open>a\<close> and \<open>.com\<close> give no
  accepted domain. \<open>normalize_domain\<close> returns a string on each of them (the empty
  string on the first two), \<open>is_valid_domain\<close> is false on the other two results, and
  \<open>process_domains\<close> on the four lines returns two empty sets. The functions of the
  model are total: the source catches every exception \<open>urlparse\<close> can raise.
\<close>

theorem malformed_lines_rejected:
  "normalize_domain bok (Str ''# comment'') src = []
   \<and> normalize_domain bok (Str []) src = []
   \<and> normalize_domain bok (Str ''not a domain'') src = ''not a domain''
   \<and> \<not> is_valid_domain ''not a domain''
   \<and> normalize_domain bok (Str (''toolonglabel'' @ replicate 70 CHR ''a'' @ ''.com'')) src
        = ''toolonglabel'' @ replicate 70 CHR ''a'' @ ''.com''
   \<and> \<not> is_valid_domain (''toolonglabel'' @ replicate 70 CHR ''a'' @ ''.com'')
   \<and> process_domains bok
        [Str ''# comment'', Str [], Str ''not a domain'',
         Str (''toolonglabel'' @ replicate 70 CHR ''a'' @ ''.com'')] kws src = ({||}, {||})"
proof -
  let ?long = "''toolonglabel'' @ replicate 70 CHR ''a'' @ ''.com''"
  have low1: "lower (strip is_space ''# comment'') = ''# comment''"
    by code_simp
  have n1: "normalize_domain bok (Str ''# comment'') src = []"
    using normalize_domain_comment [OF low1] by (simp add: startswith_def)
  have n2: "normalize_domain bok (Str []) src = []"
    by (rule normalize_domain_empty)
  have low3: "lower (strip is_space ''not a domain'') = ''not a domain''"
    by code_simp
  have clean3: "cleanup bok ''not a domain'' = ''not a domain''"
    by code_simp
  have n3: "normalize_domain bok (Str ''not a domain'') src = ''not a domain''"
    using normalize_domain_no_comma [OF _ low3, of bok src] clean3 by simp
  have v3: "\<not> is_valid_domain ''not a domain''"
    using valid_domain_one_dot [of "''not a domain''"] by auto
  have low4: "lower (strip is_space ?long) = ?long"
    by code_simp
  have clean4: "cleanup bok ?long = ?long"
    by code_simp
  have hd4: "?long \<noteq> [] \<and> hd ?long = CHR ''t'' \<and> CHR '','' \<notin> set ?long"
    by simp
  have n4: "normalize_domain bok (Str ?long) src = ?long"
    using normalize_domain_no_comma [OF _ low4, of bok src] clean4 hd4 by simp
  have len4: "length (takeWhile (\<lambda>c. c \<noteq> CHR ''.'') ?long) = 82"
    by code_simp
  have v4: "\<not> is_valid_domain ?long"
    using valid_label_length [of ?long] len4 by auto
  have "process_loop bok kws src
          [Str ''# comment'', Str [], Str ''not a domain'', Str ?long] ({||}, {||})
        = process_loop bok kws src [Str [], Str ''not a domain'', Str ?long] ({||}, {||})"
    by (rule process_loop_rejected [OF n1]) simp
  also have "\<dots> = process_loop bok kws src [Str ''not a domain'', Str ?long] ({||}, {||})"
    by (rule process_loop_rejected [OF n2]) simp
  also have "\<dots> = process_loop bok kws src [Str ?long] ({||}, {||})"
    by (rule process_loop_rejected [OF n3 disjI2 [OF v3]])
  also have "\<dots> = process_loop bok kws src [] ({||}, {||})"
    by (rule process_loop_rejected [OF n4 disjI2 [OF v4]])
  finally have all: "process_domains bok
      [Str ''# comment'', Str [], Str ''not a domain'', Str ?long] kws src = ({||}, {||})"
    by (simp only: process_domains_def process_loop.simps)
  from n1 n2 n3 v3 n4 v4 all show ?thesis by (simp only: simp_thms)
qed

text \<open>Normalization of a string that already has the form of a domain.\<close>

lemma lstrip_id: "s \<noteq> [] \<Longrightarrow> \<not> p (hd s) \<Longrightarrow> lstrip p s = s"
  by (cases s) (simp_all add: lstrip_def)

lemma rstrip_id: "s \<noteq> [] \<Longrightarrow> \<not> p (last s) \<Longrightarrow> rstrip p s = s"
proof -
  assume "s \<noteq> []" and "\<not> p (last s)"
  then have "rev s \<noteq> []" and "\<not> p (hd (rev s))" by (simp_all add: hd_rev)
  then have "dropWhile p (rev s) = rev s" by (cases "rev s") simp_all
  then show ?thesis by (simp add: rstrip_def)
qed

lemma strip_id: "s \<noteq> [] \<Longrightarrow> \<not> p (hd s) \<Longrightarrow> \<not> p (last s) \<Longrightarrow> strip p s = s"
  by (simp add: strip_def lstrip_id rstrip_id)

lemma startswith_Cons: "startswith s (c # p) \<Longrightarrow> s \<noteq> [] \<and> hd s = c"
  by (cases s) (auto simp add: startswith_def)

lemma startswith_set: "startswith s p \<Longrightarrow> set p \<subseteq> set s"
proof -
  assume "startswith s p"
  then have "set p = set (take (length p) s)" by (simp add: startswith_def)
  then show ?thesis using set_take_subset by fast
qed

lemma split_ws_acc_no_space:
  "\<forall>c\<in>set s. \<not> is_space c \<Longrightarrow>
   split_ws_acc w s = (if w = [] \<and> s = [] then [] else [rev w @ s])"
  by (induction s arbitrary: w) auto

lemma split_ws_no_space: "s \<noteq> [] \<Longrightarrow> \<forall>c\<in>set s. \<not> is_space c \<Longrightarrow> split_ws s = [s]"
  by (simp add: split_ws_def split_ws_acc_no_space)

lemma plain_char_facts:
  assumes "is_ascii_lower c \<or> is_ascii_digit c \<or> c = CHR ''-'' \<or> c = CHR ''.''"
  shows "c \<noteq> CHR '',''" and "c \<noteq> CHR '':''" and "c \<noteq> CHR ''/''" and "c \<noteq> CHR ''?''"
    and "\<not> is_space c" and "lower_char c = c"
  using assms
  by (auto simp add: is_ascii_lower_def is_ascii_digit_def is_space_def lower_char_def
      is_ascii_upper_def cp_def)

lemma edge_char_facts:
  assumes "is_ascii_lower c \<or> is_ascii_digit c"
  shows "c \<noteq> CHR ''#''" and "c \<noteq> CHR ''!''" and "c \<noteq> CHR '';''" and "c \<noteq> CHR ''|''"
    and "c \<noteq> CHR ''^''" and "c \<noteq> CHR ''*''" and "c \<noteq> CHR ''.''"
    and "\<not> is_space c" and "\<not> unwanted_char c"
  using assms
  by (auto simp add: is_ascii_lower_def is_ascii_digit_def is_space_def unwanted_char_def cp_def)

lemma cleanup_Nil: "cleanup bok [] = []"
  by code_simp

lemma cleanup_plain:
  assumes ne: "d \<noteq> []"
    and chars: "\<forall>c\<in>set d. is_ascii_lower c \<or> is_ascii_digit c \<or> c = CHR ''-'' \<or> c = CHR ''.''"
    and first: "is_ascii_lower (hd d) \<or> is_ascii_digit (hd d)"
    and final: "is_ascii_lower (last d) \<or> is_ascii_digit (last d)"
  shows "cleanup bok d =
     (if startswith d ''0.0.0.0'' \<or> startswith d ''127.0.0.1''
         \<or> startswith d ''::1'' \<or> startswith d ''localhost'' then [] else d)"
proof -
  have ad: "adguard_step d = d"
    using startswith_Cons [of d "CHR ''|''" "''|''"] edge_char_facts(4) [OF first]
    by (auto simp add: adguard_step_def)
  have nosp: "\<forall>c\<in>set d. \<not> is_space c"
    using chars plain_char_facts(5) by blast
  have ho: "hosts_step d =
     (if startswith d ''0.0.0.0'' \<or> startswith d ''127.0.0.1''
         \<or> startswith d ''::1'' \<or> startswith d ''localhost'' then [] else d)"
    by (simp add: hosts_step_def split_ws_no_space [OF ne nosp])
  have ma: "markers_step d = d"
    using ne edge_char_facts [OF first] edge_char_facts [OF final]
    by (simp add: markers_step_def lstrip_id rstrip_id)
  have colon: "CHR '':'' \<notin> set d" using chars plain_char_facts(2) by blast
  have slash: "CHR ''/'' \<notin> set d" using chars plain_char_facts(3) by blast
  have quest: "CHR ''?'' \<notin> set d" using chars plain_char_facts(4) by blast
  have pr: "protocol_step bok d = d"
    using colon startswith_set [of d "''http://''"] startswith_set [of d "''https://''"]
      startswith_set [of d "''ftp://''"]
    by (auto simp add: protocol_step_def)
  have po: "port_step d = d" using colon by (simp add: port_step_def)
  have pa: "path_step d = d" using slash quest by (simp add: path_step_def)
  have st: "strip unwanted_char d = d"
    using ne edge_char_facts(9) [OF first] edge_char_facts(9) [OF final] by (rule strip_id)
  show ?thesis
  proof (cases "startswith d ''0.0.0.0'' \<or> startswith d ''127.0.0.1''
         \<or> startswith d ''::1'' \<or> startswith d ''localhost''")
    case True
    then have "hosts_step (adguard_step d) = []" by (simp only: ad ho if_True)
    then have "cleanup bok d = cleanup bok []"
      by (simp add: cleanup_def adguard_step_def hosts_step_def startswith_def)
    with True show ?thesis by (simp only: cleanup_Nil if_True)
  next
    case False
    then have "hosts_step d = d" by (simp only: ho if_False)
    with False show ?thesis
      unfolding cleanup_def by (simp only: ad ma pr po pa st if_False)
  qed
qed

lemma normalize_domain_plain:
  assumes ne: "d \<noteq> []"
    and chars: "\<forall>c\<in>set d. is_ascii_lower c \<or> is_ascii_digit c \<or> c = CHR ''-'' \<or> c = CHR ''.''"
    and first: "is_ascii_lower (hd d) \<or> is_ascii_digit (hd d)"
    and final: "is_ascii_lower (last d) \<or> is_ascii_digit (last d)"
  shows "normalize_domain bok (Str d) src =
     (if startswith d ''0.0.0.0'' \<or> startswith d ''127.0.0.1''
         \<or> startswith d ''::1'' \<or> startswith d ''localhost'' then [] else d)"
proof -
  have st: "strip is_space d = d"
    using ne edge_char_facts(8) [OF first] edge_char_facts(8) [OF final] by (rule strip_id)
  have "\<forall>c\<in>set d. lower_char c = c" using chars plain_char_facts(6) by blast
  then have lo: "lower (strip is_space d) = d" by (simp add: st lower_fixed_iff)
  have comma: "CHR '','' \<notin> set d" using chars plain_char_facts(1) by blast
  have "normalize_domain bok (Str d) src = cleanup bok d"
    by (rule normalize_domain_no_comma [OF ne lo ne edge_char_facts(1) [OF first]
          edge_char_facts(2) [OF first] edge_char_facts(3) [OF first] comma])
  then show ?thesis by (simp only: cleanup_plain [OF ne chars first final])
qed

lemma split_on_singleton_Nil: "split_on sep s = [[]] \<longleftrightarrow> s = []"
  by (cases s) (auto simp add: split_on_not_Nil split: list.splits)

lemma split_on_cover:
  "c \<in> set s \<Longrightarrow> c = sep \<or> (\<exists>p\<in>set (split_on sep s). c \<in> set p)"
proof (induction s)
  case Nil
  then show ?case by simp
next
  case (Cons x xs)
  obtain q qs where q: "split_on sep xs = q # qs"
    using split_on_not_Nil [of sep xs] by (cases "split_on sep xs") auto
  show ?case
  proof (cases "c = x")
    case True
    then show ?thesis by (auto simp add: q)
  next
    case False
    with Cons.prems have "c \<in> set xs" by simp
    then have "c = sep \<or> (\<exists>p\<in>set (q # qs). c \<in> set p)"
      using Cons.IH q by simp
    then show ?thesis by (auto simp add: q)
  qed
qed

lemma hd_split_on: "hd (split_on sep s) \<noteq> [] \<Longrightarrow> s \<noteq> [] \<and> hd s = hd (hd (split_on sep s))"
  by (cases s) (auto split: list.splits)

lemma last_split_on:
  "last (split_on sep s) \<noteq> [] \<Longrightarrow> s \<noteq> [] \<and> last s = last (last (split_on sep s))"
proof (induction s)
  case Nil
  then show ?case by simp
next
  case (Cons x xs)
  obtain q qs where q: "split_on sep xs = q # qs"
    using split_on_not_Nil [of sep xs] by (cases "split_on sep xs") auto
  show ?case
  proof (cases "xs = []")
    case True
    with Cons.prems show ?thesis by (auto split: if_splits)
  next
    case False
    then have nn: "split_on sep xs \<noteq> [[]]" by (simp add: split_on_singleton_Nil)
    show ?thesis
    proof (cases "x = sep")
      case True
      with Cons.prems have "last (split_on sep xs) \<noteq> []" by (simp add: split_on_not_Nil)
      with Cons.IH True False show ?thesis by (simp add: split_on_not_Nil)
    next
      case neq: False
      show ?thesis
      proof (cases "qs = []")
        case True
        with nn q have "q \<noteq> []" by simp
        with Cons.IH q True neq False show ?thesis by simp
      next
        case qs: False
        with Cons.prems q neq have "last (split_on sep xs) \<noteq> []" by simp
        with Cons.IH q qs neq False show ?thesis by simp
      qed
    qed
  qed
qed

lemma label_char_lower:
  assumes "label_char c" and "lower_char c = c"
  shows "is_ascii_lower c \<or> is_ascii_digit c \<or> c = CHR ''-''"
  using assms lower_fixed_not_upper [of c] by (auto simp add: label_char_def is_ascii_alpha_def)

lemma canonical_domain_plain:
  assumes "canonical_domain d"
  shows "d \<noteq> []"
    and "\<forall>c\<in>set d. is_ascii_lower c \<or> is_ascii_digit c \<or> c = CHR ''-'' \<or> c = CHR ''.''"
    and "is_ascii_lower (hd d) \<or> is_ascii_digit (hd d)"
    and "is_ascii_lower (last d) \<or> is_ascii_digit (last d)"
proof -
  let ?labels = "split_on CHR ''.'' d"
  from assms have low: "\<forall>c\<in>set d. lower_char c = c"
    and len: "2 \<le> length ?labels"
    and labels: "\<forall>l\<in>set ?labels. canonical_label l"
    and tld: "list_all is_ascii_alpha (last ?labels)"
    by (simp_all add: canonical_domain_def Let_def lower_fixed_iff list_all_iff)
  from len show ne: "d \<noteq> []" by auto
  show "\<forall>c\<in>set d. is_ascii_lower c \<or> is_ascii_digit c \<or> c = CHR ''-'' \<or> c = CHR ''.''"
  proof
    fix c assume c: "c \<in> set d"
    show "is_ascii_lower c \<or> is_ascii_digit c \<or> c = CHR ''-'' \<or> c = CHR ''.''"
    proof (cases "c = CHR ''.''")
      case True
      then show ?thesis by simp
    next
      case False
      with c obtain l where "l \<in> set ?labels" and "c \<in> set l"
        using split_on_cover [of c d "CHR ''.''"] by blast
      with labels have "label_char c" by (auto simp add: canonical_label_def list_all_iff)
      with low c show ?thesis using label_char_lower by blast
    qed
  qed
  have nonempty: "?labels \<noteq> []" by (rule split_on_not_Nil)
  then have "hd ?labels \<in> set ?labels" and lastin: "last ?labels \<in> set ?labels" by simp_all
  with labels have h: "canonical_label (hd ?labels)" and l: "canonical_label (last ?labels)"
    by blast+
  from h have hne: "hd ?labels \<noteq> []" by (auto simp add: canonical_label_def)
  then have hd_eq: "hd d = hd (hd ?labels)" using hd_split_on by blast
  from h hne have "label_char (hd (hd ?labels))" and "hd (hd ?labels) \<noteq> CHR ''-''"
    by (auto simp add: canonical_label_def list_all_iff)
  moreover from ne low have "lower_char (hd d) = hd d" by simp
  ultimately show "is_ascii_lower (hd d) \<or> is_ascii_digit (hd d)"
    using label_char_lower [of "hd d"] hd_eq by auto
  from l have lne: "last ?labels \<noteq> []" by (auto simp add: canonical_label_def)
  then have last_eq: "last d = last (last ?labels)" using last_split_on by blast
  from tld lne have "is_ascii_alpha (last (last ?labels))" by (simp add: list_all_iff)
  moreover from ne low have "lower_char (last d) = last d" by simp
  ultimately show "is_ascii_lower (last d) \<or> is_ascii_digit (last d)"
    using lower_fixed_not_upper [of "last d"] last_eq by (auto simp add: is_ascii_alpha_def)
qed

lemma normalize_canonical:
  assumes "canonical_domain d"
  shows "normalize_domain bok (Str d) src =
     (if startswith d ''0.0.0.0'' \<or> startswith d ''127.0.0.1''
         \<or> startswith d ''::1'' \<or> startswith d ''localhost'' then [] else d)"
  using canonical_domain_plain [OF assms] by (rule normalize_domain_plain)

lemma normalize_domain_strip_cong:
  assumes "x \<noteq> []" and "y \<noteq> []" and "lower (strip is_space x) = lower (strip is_space y)"
  shows "normalize_domain bok (Str x) src = normalize_domain bok (Str y) src"
  using assms by (simp add: normalize_domain_def)

lemma strip_trailing_newline:
  assumes "y \<noteq> []" and "\<not> is_space (hd y)" and "\<not> is_space (last y)"
    and "at_end rest"
  shows "strip is_space (y @ rest) = y"
proof -
  have sp: "is_space (CHR 0x0A)" by (simp add: is_space_def cp_def)
  from assms(1,2) have l: "lstrip is_space (y @ rest) = y @ rest"
    by (cases y) (simp_all add: lstrip_def)
  from assms(1,3) have "dropWhile is_space (rev y) = rev y"
    by (cases "rev y") (simp_all add: hd_rev[symmetric])
  with assms(4) sp have "rstrip is_space (y @ rest) = y"
    by (auto simp add: rstrip_def at_end_def)
  with l show ?thesis by (simp add: strip_def)
qed

lemma accepted_core:
  assumes valid: "is_valid_domain x" and low: "lower x = x"
  shows "\<exists>y. y \<noteq> [] \<and> strip is_space x = y
     \<and> (\<forall>c\<in>set y. is_ascii_lower c \<or> is_ascii_digit c \<or> c = CHR ''-'' \<or> c = CHR ''.'')
     \<and> (is_ascii_lower (hd y) \<or> is_ascii_digit (hd y))
     \<and> (is_ascii_lower (last y) \<or> is_ascii_digit (last y))"
proof -
  from valid obtain n m where nm: "regex_match_at x n m"
    by (auto simp add: is_valid_domain_def regex_search_iff)
  let ?l = "take n x" and ?t = "take m (drop (n + 1) x)" and ?r = "drop (n + 1 + m) x"
  let ?y = "?l @ CHR ''.'' # ?t"
  have x: "?y @ ?r = x" using regex_match_at_decomp [OF nm] by simp
  from low have fixed: "\<forall>c\<in>set x. lower_char c = c" by (simp add: lower_fixed_iff)
  from nm have n: "1 \<le> n" "n < length x" and m: "2 \<le> m" "n + 1 + m \<le> length x"
    and first: "x ! 0 \<noteq> CHR ''-''"
    and lab: "\<forall>c\<in>set ?l. label_char c" and tld: "\<forall>c\<in>set ?t. is_ascii_alpha c"
    and rest: "at_end ?r"
    by (auto simp add: regex_match_at_def list_all_iff)
  have lset: "set ?l \<subseteq> set x" by (rule set_take_subset)
  have tset: "set ?t \<subseteq> set x" by (meson set_take_subset set_drop_subset subset_trans)
  have chars: "\<forall>c\<in>set ?y. is_ascii_lower c \<or> is_ascii_digit c \<or> c = CHR ''-'' \<or> c = CHR ''.''"
  proof
    fix c assume "c \<in> set ?y"
    then consider "c \<in> set ?l" | "c = CHR ''.''" | "c \<in> set ?t" by auto
    then show "is_ascii_lower c \<or> is_ascii_digit c \<or> c = CHR ''-'' \<or> c = CHR ''.''"
    proof cases
      case 1
      with lab fixed lset show ?thesis using label_char_lower [of c] by blast
    next
      case 2
      then show ?thesis by simp
    next
      case 3
      with tld fixed tset have "is_ascii_alpha c" and "lower_char c = c" by blast+
      then show ?thesis using lower_fixed_not_upper [of c] by (auto simp add: is_ascii_alpha_def)
    qed
  qed
  from n have lne: "?l \<noteq> []" by auto
  have hd_y: "hd ?y = x ! 0"
  proof -
    from lne have "hd ?y = hd ?l" by simp
    also from lne have "hd ?l = ?l ! 0" by (rule hd_conv_nth)
    also from n have "?l ! 0 = x ! 0" by simp
    finally show ?thesis .
  qed
  from lne have hyl: "hd ?y = hd ?l" by simp
  from lne have "hd ?l \<in> set ?l" by (rule hd_in_set)
  then have "hd ?y \<in> set ?l" by (simp only: hyl)
  with lab fixed lset have "label_char (hd ?y)" and "lower_char (hd ?y) = hd ?y" by blast+
  with first hd_y have hd_ok: "is_ascii_lower (hd ?y) \<or> is_ascii_digit (hd ?y)"
    using label_char_lower [of "hd ?y"] by auto
  from m have tne: "?t \<noteq> []" by auto
  then have lyt: "last ?y = last ?t" by simp
  from tne have "last ?t \<in> set ?t" by (rule last_in_set)
  then have "last ?y \<in> set ?t" by (simp only: lyt)
  with tld fixed tset have "is_ascii_alpha (last ?y)" and "lower_char (last ?y) = last ?y" by blast+
  then have last_ok: "is_ascii_lower (last ?y) \<or> is_ascii_digit (last ?y)"
    using lower_fixed_not_upper [of "last ?y"] by (auto simp add: is_ascii_alpha_def)
  have yne: "?y \<noteq> []" by simp
  have "strip is_space (?y @ ?r) = ?y"
    using yne edge_char_facts(8) [OF hd_ok] edge_char_facts(8) [OF last_ok] rest
    by (rule strip_trailing_newline)
  then have "strip is_space x = ?y" by (simp only: x)
  with yne chars hd_ok last_ok show ?thesis by blast
qed

lemma normalize_accepted:
  assumes valid: "is_valid_domain x" and low: "lower x = x"
  shows "normalize_domain bok (Str x) src =
     (if startswith (strip is_space x) ''0.0.0.0'' \<or> startswith (strip is_space x) ''127.0.0.1''
         \<or> startswith (strip is_space x) ''::1'' \<or> startswith (strip is_space x) ''localhost''
      then [] else strip is_space x)"
proof -
  let ?y = "strip is_space x"
  from accepted_core [OF valid low] have yne: "?y \<noteq> []"
    and chars: "\<forall>c\<in>set ?y. is_ascii_lower c \<or> is_ascii_digit c \<or> c = CHR ''-'' \<or> c = CHR ''.''"
    and first: "is_ascii_lower (hd ?y) \<or> is_ascii_digit (hd ?y)"
    and final: "is_ascii_lower (last ?y) \<or> is_ascii_digit (last ?y)"
    by auto
  from yne have xne: "x \<noteq> []" by (auto simp add: strip_def lstrip_def rstrip_def)
  have "strip is_space ?y = ?y"
    using yne edge_char_facts(8) [OF first] edge_char_facts(8) [OF final] by (rule strip_id)
  then have "normalize_domain bok (Str x) src = normalize_domain bok (Str ?y) src"
    using xne yne by (intro normalize_domain_strip_cong) simp_all
  then show ?thesis by (simp only: normalize_domain_plain [OF yne chars first final])
qed

lemma normalize_accepted_idem:
  assumes valid: "is_valid_domain x" and low: "lower x = x"
  shows "normalize_domain bok (Str (normalize_domain bok (Str x) src)) src
        = normalize_domain bok (Str x) src"
proof (cases "normalize_domain bok (Str x) src = []")
  case True
  then show ?thesis by (simp add: normalize_domain_empty)
next
  case False
  let ?y = "strip is_space x"
  from False normalize_accepted [OF valid low, of bok src]
  have r: "normalize_domain bok (Str x) src = ?y"
    and nh: "\<not> (startswith ?y ''0.0.0.0'' \<or> startswith ?y ''127.0.0.1''
         \<or> startswith ?y ''::1'' \<or> startswith ?y ''localhost'')"
    by (auto split: if_splits)
  from accepted_core [OF valid low] have yne: "?y \<noteq> []"
    and chars: "\<forall>c\<in>set ?y. is_ascii_lower c \<or> is_ascii_digit c \<or> c = CHR ''-'' \<or> c = CHR ''.''"
    and first: "is_ascii_lower (hd ?y) \<or> is_ascii_digit (hd ?y)"
    and final: "is_ascii_lower (last ?y) \<or> is_ascii_digit (last ?y)"
    by auto
  from nh have "normalize_domain bok (Str ?y) src = ?y"
    by (simp only: normalize_domain_plain [OF yne chars first final] if_False)
  with r show ?thesis by simp
qed

text \<open>
  C7. Normalization is idempotent on canonical input: for every canonical domain \<open>x\<close>,
  normalizing the result of \<open>normalize_domain\<close> on \<open>x\<close> again gives that same result.
  Canonical is read both ways: the grammar of the specification (\<open>canonical_domain\<close>),
  and a lowercase string that the validation regex of the code accepts.
  \<open>VALID-Domain.IO\<close> is normalized to \<open>valid-domain.io\<close>, and \<open>valid-domain.io\<close> to
  itself.
\<close>

theorem normalize_idempotent_on_canonical:
  "(canonical_domain x \<or> (is_valid_domain x \<and> lower x = x) \<longrightarrow>
      normalize_domain bok (Str (normalize_domain bok (Str x) src)) src
        = normalize_domain bok (Str x) src)
   \<and> normalize_domain bok (Str ''VALID-Domain.IO'') src = ''valid-domain.io''
   \<and> normalize_domain bok (Str ''valid-domain.io'') src = ''valid-domain.io''"
proof -
  have idem: "normalize_domain bok (Str (normalize_domain bok (Str x) src)) src
        = normalize_domain bok (Str x) src" if c: "canonical_domain x"
  proof (cases "normalize_domain bok (Str x) src = []")
    case True
    then show ?thesis by (simp add: normalize_domain_empty)
  next
    case False
    with normalize_canonical [OF c, of bok src] have "normalize_domain bok (Str x) src = x"
      by (simp split: if_splits)
    then show ?thesis by simp
  qed
  have low: "lower (strip is_space ''VALID-Domain.IO'') = ''valid-domain.io''"
    by code_simp
  have clean: "cleanup bok ''valid-domain.io'' = ''valid-domain.io''"
    by code_simp
  have n1: "normalize_domain bok (Str ''VALID-Domain.IO'') src = ''valid-domain.io''"
    using normalize_domain_no_comma [OF _ low, of bok src] clean by simp
  have low': "lower (strip is_space ''valid-domain.io'') = ''valid-domain.io''"
    by code_simp
  have n2: "normalize_domain bok (Str ''valid-domain.io'') src = ''valid-domain.io''"
    using normalize_domain_no_comma [OF _ low', of bok src] clean by simp
  from idem normalize_accepted_idem [of x bok src] n1 n2 show ?thesis by blast
qed

theorem normalize_idempotent_on_canonical_witness:
  "canonical_domain ''valid-domain.io''
   \<and> is_valid_domain ''valid-domain.io'' \<and> lower ''valid-domain.io'' = ''valid-domain.io''
   \<and> normalize_domain (\<lambda>_. True) (Str (normalize_domain (\<lambda>_. True) (Str ''valid-domain.io'') None)) None
       = normalize_domain (\<lambda>_. True) (Str ''valid-domain.io'') None
   \<and> normalize_domain (\<lambda>_. True) (Str ''valid-domain.io'') None = ''valid-domain.io''"
proof -
  have c: "canonical_domain ''valid-domain.io''"
    by code_simp
  have v: "is_valid_domain ''valid-domain.io''"
    by code_simp
  have l: "lower ''valid-domain.io'' = ''valid-domain.io''"
    by code_simp
  from normalize_idempotent_on_canonical [of "''valid-domain.io''" "\<lambda>_. True" None] c v l
  show ?thesis by simp
qed

section \<open>Properties of the merge\<close>

lemma set_final_list:
  "set (fst (merge_domains C B P)) = fset C \<union> fset B"
  by (simp add: merge_domains_def Let_def)

lemma final_list_eq:
  "fst (merge_domains C B P) = sorted_list_of_fset (C |\<union>| B)"
  by (simp add: merge_domains_def Let_def)

lemma strict_sorted_list_of_fset:
  "sorted_wrt (<) (sorted_list_of_fset A)"
  by (simp add: sorted_list_of_fset.rep_eq)

lemma distinct_sorted_list_of_fset:
  "distinct (sorted_list_of_fset A)"
  by (simp add: sorted_list_of_fset.rep_eq)

lemma length_sorted_list_of_fset:
  "length (sorted_list_of_fset A) = fcard A"
  by (simp add: sorted_list_of_fset.rep_eq fcard.rep_eq)

text \<open>
  C3. Append-only merge: every domain of the existing corpus is in the final list that
  \<open>merge_domains\<close> returns, whatever the incoming batch and the priority set are.
\<close>

theorem merge_append_only:
  "fset C \<subseteq> set (fst (merge_domains C B P))"
  by (simp add: set_final_list)

text \<open>
  C4. The priority argument is inert: two calls of \<open>merge_domains\<close> that differ only in
  the priority set return the same final list and the same statistics, and the
  \<open>priority_count\<close> statistic is 0.
\<close>

theorem merge_priority_inert:
  "merge_domains existing incoming P1 = merge_domains existing incoming P2
   \<and> priority_count (snd (merge_domains existing incoming P1)) = 0"
  by (simp add: merge_domains_def Let_def)

text \<open>
  C5. The final list of \<open>merge_domains\<close> is strictly ascending in the code point order
  on strings; so it has no duplicates, and its length is the cardinality of the union
  of the existing and the incoming set.
\<close>

theorem merge_strictly_ascending:
  "sorted_wrt (<) (fst (merge_domains C B P))
   \<and> distinct (fst (merge_domains C B P))
   \<and> length (fst (merge_domains C B P)) = fcard (C |\<union>| B)"
  by (simp add: final_list_eq strict_sorted_list_of_fset length_sorted_list_of_fset
      distinct_sorted_list_of_fset)

text \<open>
  C6. Merging an empty batch is a no-op: the final list of a merge, taken as the
  existing set and merged with an empty batch and an empty priority set, comes back
  unchanged.
\<close>

theorem merge_empty_batch_noop:
  "fst (merge_domains (fset_of_list (fst (merge_domains C B1 P1))) {||} (Some {||}))
     = fst (merge_domains C B1 P1)"
  by (simp add: final_list_eq)

end
